theory Spec2Isabelle
  imports Main "HOL-Library.Word"
begin

unbundle bit_operations_syntax

section \<open>Strings and regular expressions\<close>

text \<open>
  The server of \<^verbatim>\<open>server.py\<close> validates three strings with Python's \<^verbatim>\<open>re\<close> module.
  Strings are lists of characters, a character being a code point below 256, and the
  length of a string is the number of its characters, as \<^verbatim>\<open>len\<close> counts them. The
  patterns of the source use only anchors, literal characters, character classes and the
  repetitions \<^verbatim>\<open>+\<close> and \<^verbatim>\<open>{n,}\<close> of a class, so a pattern is a list of such items, and the
  matcher returns, for one item, every position at which it can end (all the choices
  backtracking would try). A class is a list of ranges of characters, or the complement
  of one.
\<close>

datatype cls = In "(char \<times> char) list" | NotIn "(char \<times> char) list"

datatype item = Bol | Eol | Lit char | Cls cls | Plus cls | AtLeast nat cls

definition in_ranges :: "(char \<times> char) list \<Rightarrow> char \<Rightarrow> bool" where
  "in_ranges rs c =
     list_ex (\<lambda>(lo, hi). (of_char lo :: nat) \<le> of_char c \<and> (of_char c :: nat) \<le> of_char hi) rs"

fun in_cls :: "cls \<Rightarrow> char \<Rightarrow> bool" where
  "in_cls (In rs) c = in_ranges rs c"
| "in_cls (NotIn rs) c = (\<not> in_ranges rs c)"

text \<open>
  \<^verbatim>\<open>$\<close> without \<^verbatim>\<open>re.MULTILINE\<close> matches at the end of the string and also just before
  a newline that is the last character of the string.
\<close>

fun ends :: "item \<Rightarrow> string \<Rightarrow> nat \<Rightarrow> nat list" where
  "ends Bol w i = (if i = 0 then [i] else [])"
| "ends Eol w i =
     (if i = length w \<or> (Suc i = length w \<and> w ! i = CHR 0x0A) then [i] else [])"
| "ends (Lit a) w i = (if i < length w \<and> w ! i = a then [Suc i] else [])"
| "ends (Cls c) w i = (if i < length w \<and> in_cls c (w ! i) then [Suc i] else [])"
| "ends (Plus c) w i =
     map (\<lambda>k. i + k) [1 ..< Suc (length (takeWhile (in_cls c) (drop i w)))]"
| "ends (AtLeast n c) w i =
     map (\<lambda>k. i + k) [n ..< Suc (length (takeWhile (in_cls c) (drop i w)))]"

fun match_from :: "item list \<Rightarrow> string \<Rightarrow> nat \<Rightarrow> bool" where
  "match_from [] w i = True"
| "match_from (x # xs) w i = list_ex (match_from xs w) (ends x w i)"

definition re_match :: "item list \<Rightarrow> string \<Rightarrow> bool" where
  "re_match p w = match_from p w 0"

definition re_search :: "item list \<Rightarrow> string \<Rightarrow> bool" where
  "re_search p w = list_ex (match_from p w) [0 ..< Suc (length w)]"

section \<open>Validation functions\<close>

definition word_chars :: "(char \<times> char) list" where
  "word_chars = [(CHR ''a'', CHR ''z''), (CHR ''A'', CHR ''Z''), (CHR ''0'', CHR ''9''),
                 (CHR ''_'', CHR ''_'')]"

text \<open>\<^verbatim>\<open>r'^[a-zA-Z0-9_]+$'\<close>\<close>

definition username_pattern :: "item list" where
  "username_pattern = [Bol, Plus (In word_chars), Eol]"

definition validate_username :: "string \<Rightarrow> bool \<times> string" where
  "validate_username username =
     (if length username < 3 \<or> length username > 20
      then (False, ''Username must be 3-20 characters'')
      else if \<not> re_match username_pattern username
      then (False, ''Username can only contain letters, numbers, and underscores'')
      else (True, ''''))"

text \<open>\<^verbatim>\<open>r'^[a-zA-Z0-9._%+-]+@[a-zA-Z0-9.-]+\.[a-zA-Z]{2,}$'\<close>\<close>

definition email_pattern :: "item list" where
  "email_pattern =
     [Bol,
      Plus (In [(CHR ''a'', CHR ''z''), (CHR ''A'', CHR ''Z''), (CHR ''0'', CHR ''9''),
                (CHR ''.'', CHR ''.''), (CHR ''_'', CHR ''_''), (CHR ''%'', CHR ''%''),
                (CHR ''+'', CHR ''+''), (CHR ''-'', CHR ''-'')]),
      Lit (CHR ''@''),
      Plus (In [(CHR ''a'', CHR ''z''), (CHR ''A'', CHR ''Z''), (CHR ''0'', CHR ''9''),
                (CHR ''.'', CHR ''.''), (CHR ''-'', CHR ''-'')]),
      Lit (CHR ''.''),
      AtLeast 2 (In [(CHR ''a'', CHR ''z''), (CHR ''A'', CHR ''Z'')]),
      Eol]"

definition validate_email :: "string \<Rightarrow> bool \<times> string" where
  "validate_email email =
     (if \<not> re_match email_pattern email
      then (False, ''Invalid email format'')
      else (True, ''''))"

definition validate_password :: "string \<Rightarrow> bool \<times> string" where
  "validate_password password =
     (if length password < 8
      then (False, ''Password must be at least 8 characters'')
      else if \<not> re_search [Cls (In [(CHR ''A'', CHR ''Z'')])] password
      then (False, ''Password must contain at least one uppercase letter'')
      else if \<not> re_search [Cls (In [(CHR ''a'', CHR ''z'')])] password
      then (False, ''Password must contain at least one lowercase letter'')
      else if \<not> re_search [Cls (In [(CHR ''0'', CHR ''9'')])] password
      then (False, ''Password must contain at least one number'')
      else if \<not> re_search
                 [Cls (NotIn [(CHR ''A'', CHR ''Z''), (CHR ''a'', CHR ''z''),
                              (CHR ''0'', CHR ''9'')])] password
      then (False, ''Password must contain at least one special character'')
      else (True, ''''))"

section \<open>Password hashing\<close>

text \<open>
  \<^verbatim>\<open>hashlib.pbkdf2_hmac\<close> is a primitive of the Python library: it is a parameter of the
  model, a function of the hash name, the password bytes, the salt bytes and the
  iteration count; with no \<^verbatim>\<open>dklen\<close> it returns the 32 bytes of a SHA-256 digest, a
  256-bit word here. What the outside world supplies to one request (the clock behind
  \<^verbatim>\<open>CURRENT_TIMESTAMP\<close>, in seconds, and the string \<^verbatim>\<open>secrets.token_hex(16)\<close> would
  return) is the record \<open>env\<close>.
\<close>

type_synonym byte = "8 word"

type_synonym kdf = "string \<Rightarrow> byte list \<Rightarrow> byte list \<Rightarrow> nat \<Rightarrow> 256 word"

record env =
  now :: nat
  token_hex :: string

text \<open>\<^verbatim>\<open>str.encode('utf-8')\<close> on characters with code points below 256.\<close>

definition utf8_encode :: "string \<Rightarrow> byte list" where
  "utf8_encode s =
     concat (map (\<lambda>c. let n = (of_char c :: nat) in
                        if n < 128 then [word_of_nat n]
                        else [0xC0 OR word_of_nat (n div 64), 0x80 OR word_of_nat (n mod 64)]) s)"

definition hex_digit :: "nat \<Rightarrow> char" where
  "hex_digit n = ''0123456789abcdef'' ! n"

text \<open>\<^verbatim>\<open>bytes.hex()\<close> of the 32 digest bytes: 64 lower-case digits, high nibble first.\<close>

definition hex :: "256 word \<Rightarrow> string" where
  "hex w = map (\<lambda>i. hex_digit (unat (drop_bit (4 * (63 - i)) w AND 0xF))) [0 ..< 64]"

definition hash_password :: "kdf \<Rightarrow> env \<Rightarrow> string \<Rightarrow> string option \<Rightarrow> string \<times> string" where
  "hash_password pbkdf2_hmac e password salt =
     (let salt' = (case salt of None \<Rightarrow> token_hex e | Some s \<Rightarrow> s);
          password_hash =
            hex (pbkdf2_hmac ''sha256'' (utf8_encode password) (utf8_encode salt') 100000)
      in (password_hash, salt'))"

section \<open>The database\<close>

text \<open>
  The two tables of \<^verbatim>\<open>init_db\<close>, rows in rowid order, and the \<^verbatim>\<open>sqlite_sequence\<close> entry
  that \<^verbatim>\<open>AUTOINCREMENT\<close> keeps for \<^verbatim>\<open>users\<close>. Every request handler opens its own
  connection and commits at most once, so a handler is a function from one database
  state to the next.
\<close>

record user =
  user_id :: nat
  username :: string
  email :: string
  password_hash :: string
  password_salt :: string
  mood :: "string option"
  agreed_to_terms :: bool
  created_at :: nat
  last_login :: "nat option"

record login_attempt =
  attempt_id :: nat
  attempt_email :: string
  attempt_time :: nat
  success :: bool
  ip_address :: "string option"

record db =
  users :: "user list"
  login_attempts :: "login_attempt list"
  users_seq :: nat

text \<open>\<^verbatim>\<open>CREATE TABLE IF NOT EXISTS\<close>: a database that exists already is left as it is.\<close>

definition init_db :: "db option \<Rightarrow> db" where
  "init_db file =
     (case file of
        None \<Rightarrow> \<lparr>users = [], login_attempts = [], users_seq = 0\<rparr>
      | Some st \<Rightarrow> st)"

definition next_rowid :: "db \<Rightarrow> nat" where
  "next_rowid st = Suc (max (users_seq st) (fold max (map user_id (users st)) 0))"

text \<open>
  The \<^verbatim>\<open>INSERT\<close> of \<^verbatim>\<open>signup\<close>: \<open>None\<close> is the \<^verbatim>\<open>IntegrityError\<close> of a \<^verbatim>\<open>UNIQUE\<close>
  column; otherwise the new state and \<^verbatim>\<open>cursor.lastrowid\<close>.
\<close>

definition insert_user ::
  "nat \<Rightarrow> string \<Rightarrow> string \<Rightarrow> string \<Rightarrow> string \<Rightarrow> string option \<Rightarrow> db \<Rightarrow> (db \<times> nat) option"
where
  "insert_user t uname mail h s md st =
     (if \<exists>x \<in> set (users st). username x = uname \<or> email x = mail then None
      else let i = next_rowid st in
        Some (st\<lparr>users := users st @
                   [\<lparr>user_id = i, username = uname, email = mail, password_hash = h,
                     password_salt = s, mood = md, agreed_to_terms = True,
                     created_at = t, last_login = None\<rparr>],
                 users_seq := i\<rparr>, i))"

section \<open>Request handlers\<close>

datatype error =
    MissingField string
  | ValidationError string
  | TermsNotAccepted
  | DuplicateUsername
  | DuplicateEmail
  | MissingCredentials
  | UserNotFound
  | InvalidCredentials
  | InternalError

text \<open>
  The status code and the \<^verbatim>\<open>'error'\<close> text each error is sent with.
  \<open>InternalError\<close> is the \<^verbatim>\<open>except Exception\<close> branch, whose text is the message of the
  Python exception and is not modelled.
\<close>

fun http_status :: "error \<Rightarrow> nat" where
  "http_status (MissingField f) = 400"
| "http_status (ValidationError msg) = 400"
| "http_status TermsNotAccepted = 400"
| "http_status DuplicateUsername = 409"
| "http_status DuplicateEmail = 409"
| "http_status MissingCredentials = 400"
| "http_status UserNotFound = 404"
| "http_status InvalidCredentials = 401"
| "http_status InternalError = 500"

fun error_text :: "error \<Rightarrow> string option" where
  "error_text (MissingField f) = Some (''Missing field: '' @ f)"
| "error_text (ValidationError msg) = Some msg"
| "error_text TermsNotAccepted = Some ''You must agree to the terms and conditions''"
| "error_text DuplicateUsername = Some ''Username already exists''"
| "error_text DuplicateEmail = Some ''Email already registered''"
| "error_text MissingCredentials = Some ''Missing email or password''"
| "error_text UserNotFound = Some ''User not found''"
| "error_text InvalidCredentials = Some ''Invalid password''"
| "error_text InternalError = None"

text \<open>
  The JSON body of \<^verbatim>\<open>/api/signup\<close>: \<open>None\<close> is a key that is absent; the mood may be
  \<^verbatim>\<open>null\<close>. The other values are strings and a boolean.
\<close>

record signup_request =
  req_username :: "string option"
  req_email :: "string option"
  req_password :: "string option"
  req_mood :: "string option option"
  req_agreed_to_terms :: "bool option"

record signup_user =
  su_id :: nat
  su_username :: string
  su_email :: string
  su_mood :: "string option"
  su_created_at :: nat

definition public_fields :: "user \<Rightarrow> signup_user" where
  "public_fields u =
     \<lparr>su_id = user_id u, su_username = username u, su_email = email u, su_mood = mood u,
      su_created_at = created_at u\<rparr>"

text \<open>Lines 102 to 176 of \<^verbatim>\<open>signup\<close>, once the four required fields are there.\<close>

definition register ::
  "kdf \<Rightarrow> env \<Rightarrow> string \<Rightarrow> string \<Rightarrow> string \<Rightarrow> string option \<Rightarrow> bool option \<Rightarrow> db
     \<Rightarrow> (error + signup_user) \<times> db"
where
  "register pbkdf2_hmac e uname mail pw md agreed st =
     (let (username_valid, username_msg) = validate_username uname in
      if \<not> username_valid then (Inl (ValidationError username_msg), st) else
      let (email_valid, email_msg) = validate_email mail in
      if \<not> email_valid then (Inl (ValidationError email_msg), st) else
      let (password_valid, password_msg) = validate_password pw in
      if \<not> password_valid then (Inl (ValidationError password_msg), st) else
      if agreed \<noteq> Some True then (Inl TermsNotAccepted, st) else
      if find (\<lambda>x. username x = uname) (users st) \<noteq> None then (Inl DuplicateUsername, st) else
      if find (\<lambda>x. email x = mail) (users st) \<noteq> None then (Inl DuplicateEmail, st) else
      let (h, salt) = hash_password pbkdf2_hmac e pw None in
      case insert_user (now e) uname mail h salt md st of
        None \<Rightarrow> (Inl InternalError, st)
      | Some (st', i) \<Rightarrow>
          (case find (\<lambda>x. user_id x = i) (users st') of
             None \<Rightarrow> (Inl InternalError, st')
           | Some u \<Rightarrow> (Inr (public_fields u), st')))"

definition signup ::
  "kdf \<Rightarrow> env \<Rightarrow> signup_request \<Rightarrow> db \<Rightarrow> (error + signup_user) \<times> db"
where
  "signup pbkdf2_hmac e data st =
     (case req_username data of
        None \<Rightarrow> (Inl (MissingField ''username''), st)
      | Some uname \<Rightarrow>
     (case req_email data of
        None \<Rightarrow> (Inl (MissingField ''email''), st)
      | Some mail \<Rightarrow>
     (case req_password data of
        None \<Rightarrow> (Inl (MissingField ''password''), st)
      | Some pw \<Rightarrow>
     (case req_mood data of
        None \<Rightarrow> (Inl (MissingField ''mood''), st)
      | Some md \<Rightarrow>
          register pbkdf2_hmac e uname mail pw md (req_agreed_to_terms data) st))))"

text \<open>A request body that carries all five fields.\<close>

definition signup_data ::
  "string \<Rightarrow> string \<Rightarrow> string \<Rightarrow> string option \<Rightarrow> bool \<Rightarrow> signup_request"
where
  "signup_data uname mail pw md agreed =
     \<lparr>req_username = Some uname, req_email = Some mail, req_password = Some pw,
      req_mood = Some md, req_agreed_to_terms = Some agreed\<rparr>"

text \<open>
  \<^verbatim>\<open>get_users\<close>: the rows by \<^verbatim>\<open>created_at\<close>, newest first (SQL leaves the order of rows
  with equal times open), and their number.
\<close>

definition get_users :: "db \<Rightarrow> (signup_user list \<times> nat) \<times> db" where
  "get_users st =
     (let users_list = map public_fields (rev (sort_key created_at (users st)))
      in ((users_list, length users_list), st))"

record verify_request =
  vreq_email :: "string option"
  vreq_password :: "string option"

record verified_user =
  vu_id :: nat
  vu_username :: string
  vu_email :: string

definition verify_login ::
  "kdf \<Rightarrow> env \<Rightarrow> verify_request \<Rightarrow> db \<Rightarrow> (error + verified_user) \<times> db"
where
  "verify_login pbkdf2_hmac e data st =
     (case (vreq_email data, vreq_password data) of
        (Some mail, Some pw) \<Rightarrow>
          (case find (\<lambda>x. email x = mail) (users st) of
             None \<Rightarrow> (Inl UserNotFound, st)
           | Some u \<Rightarrow>
               let (input_hash, _) = hash_password pbkdf2_hmac e pw (Some (password_salt u)) in
               if input_hash \<noteq> password_hash u then (Inl InvalidCredentials, st)
               else
                 (Inr \<lparr>vu_id = user_id u, vu_username = username u, vu_email = email u\<rparr>,
                  st\<lparr>users :=
                       map (\<lambda>x. if user_id x = user_id u
                                 then x\<lparr>last_login := Some (now e)\<rparr> else x) (users st)\<rparr>))
      | _ \<Rightarrow> (Inl MissingCredentials, st))"

definition verify_data :: "string \<Rightarrow> string \<Rightarrow> verify_request" where
  "verify_data mail pw = \<lparr>vreq_email = Some mail, vreq_password = Some pw\<rparr>"

text \<open>
  \<^verbatim>\<open>get_stats\<close>. A timestamp is a number of seconds, \<^verbatim>\<open>date(t)\<close> its day. The groups of
  \<^verbatim>\<open>GROUP BY mood\<close> are taken in the order in which the moods first occur and sorted by
  their count; SQL leaves the order of groups with equal counts open. The dictionary of
  the response is built from the rows in that order.
\<close>

record stats =
  total_users :: nat
  recent_signups :: nat
  mood_distribution :: "(string \<times> nat) list"

definition date :: "nat \<Rightarrow> int" where
  "date t = int (t div 86400)"

definition dict_set :: "('k \<times> 'v) list \<Rightarrow> 'k \<Rightarrow> 'v \<Rightarrow> ('k \<times> 'v) list" where
  "dict_set d k v =
     (if k \<in> fst ` set d then map (\<lambda>(k', v'). if k' = k then (k', v) else (k', v')) d
      else d @ [(k, v)])"

definition dict_of :: "('k \<times> 'v) list \<Rightarrow> ('k \<times> 'v) list" where
  "dict_of rows = fold (\<lambda>(k, v) d. dict_set d k v) rows []"

definition mood_stats :: "user list \<Rightarrow> (string \<times> nat) list" where
  "mood_stats us =
     rev (sort_key snd (map (\<lambda>m. (m, count_list (List.map_filter mood us) m))
                            (remdups (List.map_filter mood us))))"

definition get_stats :: "env \<Rightarrow> db \<Rightarrow> stats \<times> db" where
  "get_stats e st =
     (let total = length (users st);
          recent = length (filter (\<lambda>u. date (created_at u) \<ge> date (now e) - 7) (users st))
      in (\<lparr>total_users = total, recent_signups = recent,
           mood_distribution = dict_of (mood_stats (users st))\<rparr>, st))"

section \<open>The server as a state machine\<close>

datatype request =
    Signup signup_request
  | Users
  | Verify verify_request
  | Stats

fun handle :: "kdf \<Rightarrow> env \<Rightarrow> request \<Rightarrow> db \<Rightarrow> db" where
  "handle pbkdf2_hmac e (Signup data) st = snd (signup pbkdf2_hmac e data st)"
| "handle pbkdf2_hmac e Users st = snd (get_users st)"
| "handle pbkdf2_hmac e (Verify data) st = snd (verify_login pbkdf2_hmac e data st)"
| "handle pbkdf2_hmac e Stats st = snd (get_stats e st)"

fun run :: "kdf \<Rightarrow> (env \<times> request) list \<Rightarrow> db \<Rightarrow> db" where
  "run pbkdf2_hmac [] st = st"
| "run pbkdf2_hmac ((e, r) # rs) st = run pbkdf2_hmac rs (handle pbkdf2_hmac e r st)"

inductive reachable :: "kdf \<Rightarrow> db \<Rightarrow> bool" for pbkdf2_hmac :: kdf where
  start: "reachable pbkdf2_hmac (init_db None)"
| step: "reachable pbkdf2_hmac st \<Longrightarrow> reachable pbkdf2_hmac (handle pbkdf2_hmac e r st)"

section \<open>Vocabulary of the properties\<close>

text \<open>The ASCII letters and digits, as sets of characters.\<close>

definition upper_letters :: "char set" where
  "upper_letters = set ''ABCDEFGHIJKLMNOPQRSTUVWXYZ''"

definition lower_letters :: "char set" where
  "lower_letters = set ''abcdefghijklmnopqrstuvwxyz''"

definition digits :: "char set" where
  "digits = set ''0123456789''"

text \<open>The row that a successful signup inserts, and the columns that no request rewrites.\<close>

definition new_user :: "kdf \<Rightarrow> env \<Rightarrow> string \<Rightarrow> string \<Rightarrow> string \<Rightarrow> string option \<Rightarrow> db \<Rightarrow> user" where
  "new_user kdf e uname mail pw md st =
     \<lparr>user_id = next_rowid st, username = uname, email = mail,
      password_hash = hex (kdf ''sha256'' (utf8_encode pw) (utf8_encode (token_hex e)) 100000),
      password_salt = token_hex e, mood = md, agreed_to_terms = True, created_at = now e,
      last_login = None\<rparr>"

definition immutable_fields ::
  "user \<Rightarrow> nat \<times> string \<times> string \<times> string \<times> string \<times> string option \<times> bool \<times> nat" where
  "immutable_fields u =
     (user_id u, username u, email u, password_hash u, password_salt u, mood u,
      agreed_to_terms u, created_at u)"

text \<open>
  Concrete inputs for the examples: a stand-in for \<^verbatim>\<open>pbkdf2_hmac\<close> that can be
  evaluated, one state of the outside world, the signup request of the specification's
  scenario, the database after that signup, and a database with four users.
\<close>

definition sample_kdf :: kdf where
  "sample_kdf name pw salt n = word_of_nat (length pw + 256 * length salt)"

definition sample_env :: env where
  "sample_env = \<lparr>now = 1700000000, token_hex = ''00112233445566778899aabbccddeeff''\<rparr>"

definition alice :: signup_request where
  "alice = signup_data ''alice_1'' ''a@b.com'' ''Abcdef1!'' (Some ''happy'') True"

definition sample_db :: db where
  "sample_db = snd (signup sample_kdf sample_env alice (init_db None))"


section \<open>Properties of the validators\<close>

lemma char_in_upt:
  assumes "(of_char lo :: nat) \<le> of_char c" "(of_char c :: nat) \<le> of_char hi"
  shows "c \<in> set (map char_of [of_char lo ..< Suc (of_char hi :: nat)])"
proof -
  from assms have "(of_char c :: nat) \<in> set [of_char lo ..< Suc (of_char hi)]"
    by (simp only: set_upt atLeastLessThan_iff less_Suc_eq_le simp_thms)
  then have "char_of (of_char c :: nat) \<in> char_of ` set [of_char lo ..< Suc (of_char hi :: nat)]"
    by (rule imageI)
  then show ?thesis by (simp only: set_map char_of_char)
qed

lemma in_upper: "in_ranges [(CHR ''A'', CHR ''Z'')] c \<longleftrightarrow> c \<in> upper_letters"
proof
  assume "in_ranges [(CHR ''A'', CHR ''Z'')] c"
  then have "c \<in> set (map char_of [of_char (CHR ''A'') ..< Suc (of_char (CHR ''Z'') :: nat)])"
    by (intro char_in_upt) (simp_all add: in_ranges_def)
  also have "map char_of [of_char (CHR ''A'') ..< Suc (of_char (CHR ''Z'') :: nat)]
      = ''ABCDEFGHIJKLMNOPQRSTUVWXYZ''"
    by code_simp
  finally show "c \<in> upper_letters" by (simp only: upper_letters_def)
next
  assume "c \<in> upper_letters"
  then show "in_ranges [(CHR ''A'', CHR ''Z'')] c"
    by (auto simp add: upper_letters_def in_ranges_def)
qed

lemma in_lower: "in_ranges [(CHR ''a'', CHR ''z'')] c \<longleftrightarrow> c \<in> lower_letters"
proof
  assume "in_ranges [(CHR ''a'', CHR ''z'')] c"
  then have "c \<in> set (map char_of [of_char (CHR ''a'') ..< Suc (of_char (CHR ''z'') :: nat)])"
    by (intro char_in_upt) (simp_all add: in_ranges_def)
  also have "map char_of [of_char (CHR ''a'') ..< Suc (of_char (CHR ''z'') :: nat)]
      = ''abcdefghijklmnopqrstuvwxyz''"
    by code_simp
  finally show "c \<in> lower_letters" by (simp only: lower_letters_def)
next
  assume "c \<in> lower_letters"
  then show "in_ranges [(CHR ''a'', CHR ''z'')] c"
    by (auto simp add: lower_letters_def in_ranges_def)
qed

lemma in_digits: "in_ranges [(CHR ''0'', CHR ''9'')] c \<longleftrightarrow> c \<in> digits"
proof
  assume "in_ranges [(CHR ''0'', CHR ''9'')] c"
  then have "c \<in> set (map char_of [of_char (CHR ''0'') ..< Suc (of_char (CHR ''9'') :: nat)])"
    by (intro char_in_upt) (simp_all add: in_ranges_def)
  also have "map char_of [of_char (CHR ''0'') ..< Suc (of_char (CHR ''9'') :: nat)]
      = ''0123456789''"
    by code_simp
  finally show "c \<in> digits" by (simp only: digits_def)
next
  assume "c \<in> digits"
  then show "in_ranges [(CHR ''0'', CHR ''9'')] c"
    by (auto simp add: digits_def in_ranges_def)
qed

lemma in_ranges_Cons: "in_ranges (r # rs) c \<longleftrightarrow> in_ranges [r] c \<or> in_ranges rs c"
  by (simp add: in_ranges_def)

lemma in_alnum:
  "in_ranges [(CHR ''A'', CHR ''Z''), (CHR ''a'', CHR ''z''), (CHR ''0'', CHR ''9'')] c
     \<longleftrightarrow> c \<in> upper_letters \<union> lower_letters \<union> digits"
  by (simp only: in_ranges_Cons [of _ "_ # _"] in_upper in_lower in_digits Un_iff disj_assoc)

lemma search_cls: "re_search [Cls c] w \<longleftrightarrow> (\<exists>x\<in>set w. in_cls c x)"
proof -
  have "re_search [Cls c] w \<longleftrightarrow> (\<exists>i<length w. in_cls c (w ! i))"
    by (auto simp add: re_search_def list_ex_iff less_Suc_eq)
  then show ?thesis by (simp add: in_set_conv_nth Bex_def) blast
qed

lemma validate_password_unfold:
  "validate_password s =
     (if length s < 8 then (False, ''Password must be at least 8 characters'')
      else if \<not> (\<exists>c\<in>set s. c \<in> upper_letters)
      then (False, ''Password must contain at least one uppercase letter'')
      else if \<not> (\<exists>c\<in>set s. c \<in> lower_letters)
      then (False, ''Password must contain at least one lowercase letter'')
      else if \<not> (\<exists>c\<in>set s. c \<in> digits)
      then (False, ''Password must contain at least one number'')
      else if \<not> (\<exists>c\<in>set s. c \<notin> upper_letters \<union> lower_letters \<union> digits)
      then (False, ''Password must contain at least one special character'')
      else (True, ''''))"
  unfolding validate_password_def search_cls in_cls.simps in_upper in_lower in_digits in_alnum
  by (rule refl)

text \<open>
  C5: \<open>validate_password s\<close> succeeds exactly when \<open>s\<close> has at least 8 characters and
  contains an uppercase letter, a lowercase letter, a digit and a character that is
  neither a letter nor a digit (letters and digits being the ASCII ones); when it fails,
  the message is that of the first failing check in the order length, uppercase,
  lowercase, digit, special character. The three examples of the specification behave
  as stated.
\<close>

theorem validate_password_checks:
  "(fst (validate_password s) \<longleftrightarrow>
      8 \<le> length s \<and> (\<exists>c\<in>set s. c \<in> upper_letters) \<and> (\<exists>c\<in>set s. c \<in> lower_letters) \<and>
      (\<exists>c\<in>set s. c \<in> digits) \<and> (\<exists>c\<in>set s. c \<notin> upper_letters \<union> lower_letters \<union> digits))
   \<and> validate_password s =
     (if length s < 8 then (False, ''Password must be at least 8 characters'')
      else if \<not> (\<exists>c\<in>set s. c \<in> upper_letters)
      then (False, ''Password must contain at least one uppercase letter'')
      else if \<not> (\<exists>c\<in>set s. c \<in> lower_letters)
      then (False, ''Password must contain at least one lowercase letter'')
      else if \<not> (\<exists>c\<in>set s. c \<in> digits)
      then (False, ''Password must contain at least one number'')
      else if \<not> (\<exists>c\<in>set s. c \<notin> upper_letters \<union> lower_letters \<union> digits)
      then (False, ''Password must contain at least one special character'')
      else (True, ''''))
   \<and> validate_password ''short1A'' = (False, ''Password must be at least 8 characters'')
   \<and> \<not> fst (validate_password ''longenough'')
   \<and> fst (validate_password ''LongEnough1!'')"
proof (intro conjI)
  show "fst (validate_password s) \<longleftrightarrow>
      8 \<le> length s \<and> (\<exists>c\<in>set s. c \<in> upper_letters) \<and> (\<exists>c\<in>set s. c \<in> lower_letters) \<and>
      (\<exists>c\<in>set s. c \<in> digits) \<and> (\<exists>c\<in>set s. c \<notin> upper_letters \<union> lower_letters \<union> digits)"
    by (simp add: validate_password_unfold)
  show "validate_password s =
     (if length s < 8 then (False, ''Password must be at least 8 characters'')
      else if \<not> (\<exists>c\<in>set s. c \<in> upper_letters)
      then (False, ''Password must contain at least one uppercase letter'')
      else if \<not> (\<exists>c\<in>set s. c \<in> lower_letters)
      then (False, ''Password must contain at least one lowercase letter'')
      else if \<not> (\<exists>c\<in>set s. c \<in> digits)
      then (False, ''Password must contain at least one number'')
      else if \<not> (\<exists>c\<in>set s. c \<notin> upper_letters \<union> lower_letters \<union> digits)
      then (False, ''Password must contain at least one special character'')
      else (True, ''''))"
    by (rule validate_password_unfold)
  show "validate_password ''short1A'' = (False, ''Password must be at least 8 characters'')"
    by (simp add: validate_password_def)
  show "\<not> fst (validate_password ''longenough'')"
    by (simp add: validate_password_def re_search_def in_ranges_def)
  show "fst (validate_password ''LongEnough1!'')"
    by (simp add: validate_password_def re_search_def in_ranges_def)
qed

theorem validate_password_checks_witness:
  "validate_password ''Abcdef1'' = (False, ''Password must be at least 8 characters'')
   \<and> validate_password ''abcdef1!'' = (False, ''Password must contain at least one uppercase letter'')
   \<and> validate_password ''ABCDEF1!'' = (False, ''Password must contain at least one lowercase letter'')
   \<and> validate_password ''Abcdefg!'' = (False, ''Password must contain at least one number'')
   \<and> validate_password ''Abcdefg1'' = (False, ''Password must contain at least one special character'')
   \<and> validate_password ''Abcdef1!'' = (True, '''')"
  using validate_password_checks [of "''Abcdef1''"] validate_password_checks [of "''abcdef1!''"]
    validate_password_checks [of "''ABCDEF1!''"] validate_password_checks [of "''Abcdefg!''"]
    validate_password_checks [of "''Abcdefg1''"] validate_password_checks [of "''Abcdef1!''"]
  by (simp add: upper_letters_def lower_letters_def digits_def)

text \<open>
  What the pattern of \<open>validate_username\<close> matches: a non-empty run of word characters,
  or such a run followed by one newline.
\<close>

lemma match_bol_plus_eol:
  "match_from [Bol, Plus c, Eol] w 0 \<longleftrightarrow>
     (\<exists>k. 1 \<le> k \<and> k \<le> length (takeWhile (in_cls c) w) \<and>
          (k = length w \<or> (Suc k = length w \<and> w ! k = CHR 0x0A)))"
  by (auto simp: list_ex_iff)

lemma take_in_takeWhile:
  assumes "k \<le> length (takeWhile P w)"
  shows "\<forall>x \<in> set (take k w). P x"
proof -
  have "take k w = take k (takeWhile P w @ dropWhile P w)" by simp
  also have "\<dots> = take k (takeWhile P w)" using assms by (simp del: takeWhile_dropWhile_id)
  finally have "set (take k w) \<subseteq> set (takeWhile P w)" by (simp add: set_take_subset)
  then show ?thesis by (auto dest: set_takeWhileD)
qed

lemma re_match_username:
  "re_match username_pattern w \<longleftrightarrow>
     (\<exists>t. (w = t \<or> w = t @ [CHR 0x0A]) \<and> t \<noteq> [] \<and> (\<forall>x \<in> set t. in_ranges word_chars x))"
  (is "?l \<longleftrightarrow> ?r")
proof
  let ?P = "in_cls (In word_chars)"
  assume ?l
  then obtain k where k: "1 \<le> k" "k \<le> length (takeWhile ?P w)"
    and e: "k = length w \<or> (Suc k = length w \<and> w ! k = CHR 0x0A)"
    unfolding re_match_def username_pattern_def match_bol_plus_eol by blast
  from k(2) have all: "\<forall>x \<in> set (take k w). in_ranges word_chars x"
    using take_in_takeWhile [of k ?P w] by simp
  have "k \<le> length w" using e by auto
  with k(1) have ne: "take k w \<noteq> []" by auto
  from e show ?r
  proof
    assume "k = length w"
    with all ne show ?r by auto
  next
    assume s: "Suc k = length w \<and> w ! k = CHR 0x0A"
    then have "w = take k w @ [w ! k]"
      by (metis lessI take_Suc_conv_app_nth take_all order_refl)
    with s have "w = take k w @ [CHR 0x0A]" by simp
    with all ne show ?r by blast
  qed
next
  let ?P = "in_cls (In word_chars)"
  assume ?r
  then obtain t where t: "w = t \<or> w = t @ [CHR 0x0A]" "t \<noteq> []"
    "\<forall>x \<in> set t. in_ranges word_chars x" by blast
  have len: "length t \<le> length (takeWhile ?P w)"
    using t(1,3) by (auto simp: takeWhile_append2 [of t ?P] takeWhile_eq_all_conv [THEN iffD2])
  have "1 \<le> length t" using t(2) by (cases t) auto
  moreover have "length t = length w \<or> (Suc (length t) = length w \<and> w ! length t = CHR 0x0A)"
    using t(1) by auto
  ultimately show ?l
    unfolding re_match_def username_pattern_def match_bol_plus_eol using len by blast
qed

lemma in_underscore: "in_ranges [(CHR ''_'', CHR ''_'')] c \<longleftrightarrow> c = CHR ''_''"
proof
  assume "in_ranges [(CHR ''_'', CHR ''_'')] c"
  then have "c \<in> set (map char_of [of_char (CHR ''_'') ..< Suc (of_char (CHR ''_'') :: nat)])"
    by (intro char_in_upt) (simp_all add: in_ranges_def)
  also have "map char_of [of_char (CHR ''_'') ..< Suc (of_char (CHR ''_'') :: nat)] = ''_''"
    by code_simp
  finally show "c = CHR ''_''" by simp
next
  assume "c = CHR ''_''"
  then show "in_ranges [(CHR ''_'', CHR ''_'')] c" by (simp add: in_ranges_def)
qed

lemma in_word_chars:
  "in_ranges word_chars c \<longleftrightarrow> c \<in> upper_letters \<union> lower_letters \<union> digits \<union> {CHR ''_''}"
  unfolding word_chars_def
  by (simp only: in_ranges_Cons [of _ "_ # _"] in_upper in_lower in_digits in_underscore)
    blast

lemma validate_username_accepts:
  "fst (validate_username s) \<longleftrightarrow>
     3 \<le> length s \<and> length s \<le> 20 \<and>
     (\<exists>t. (s = t \<or> s = t @ [CHR 0x0A]) \<and> t \<noteq> [] \<and>
          (\<forall>x \<in> set t. x \<in> upper_letters \<union> lower_letters \<union> digits \<union> {CHR ''_''}))"
  unfolding validate_username_def re_match_username in_word_chars
  by (simp add: not_less)

text \<open>
  C6: \<open>validate_username\<close> should accept exactly the strings of 3 to 20 ASCII letters,
  digits and underscores. It also accepts the four characters \<^verbatim>\<open>abc\n\<close>, whose last
  character is a newline and so neither a letter, a digit nor an underscore: \<^verbatim>\<open>$\<close> also
  matches just before a final newline.
\<close>

theorem validate_username_trailing_newline:
  "validate_username (''abc'' @ [CHR 0x0A]) = (True, '''')
   \<and> CHR 0x0A \<notin> upper_letters \<union> lower_letters \<union> digits \<union> {CHR ''_''}"
  by (simp add: validate_username_def re_match_def username_pattern_def word_chars_def
      in_ranges_def upper_letters_def lower_letters_def digits_def)

section \<open>Properties of password hashing\<close>

text \<open>The hexadecimal rendering of a digest is injective and 64 characters long.\<close>

lemma nibble_mask: "(x :: 256 word) AND 0xF = take_bit 4 x"
proof -
  have "(0xF :: 256 word) = mask 4" by (simp add: mask_eq_exp_minus_1)
  then show ?thesis by (simp add: take_bit_eq_mask)
qed

lemma nibble_less: "unat ((x :: 256 word) AND 0xF) < 16"
proof -
  have "take_bit 4 (unat x) < 2 ^ 4"
    by (rule take_bit_nat_less_exp)
  then show ?thesis by (simp add: nibble_mask unsigned_take_bit_eq)
qed

lemma hex_digit_inj:
  assumes "hex_digit n = hex_digit m" "n < 16" "m < 16"
  shows "n = m"
proof -
  have "distinct ''0123456789abcdef''" by simp
  moreover have "n < length ''0123456789abcdef''" "m < length ''0123456789abcdef''"
    using assms by simp_all
  ultimately show ?thesis
    using assms(1) unfolding hex_digit_def by (simp only: nth_eq_iff_index_eq)
qed

lemma hex_nibbles:
  assumes "hex a = hex b" "j < 64"
  shows "take_bit 4 (drop_bit (4 * j) a) = take_bit 4 (drop_bit (4 * j) b)"
proof -
  from assms(2) have "63 - j \<in> set [0 ..< 64]" by simp
  with assms(1) have
    "hex_digit (unat (drop_bit (4 * (63 - (63 - j))) a AND 0xF)) =
     hex_digit (unat (drop_bit (4 * (63 - (63 - j))) b AND 0xF))"
    unfolding hex_def map_eq_conv by (rule bspec)
  moreover from assms(2) have "63 - (63 - j) = j" by simp
  ultimately have "hex_digit (unat (drop_bit (4 * j) a AND 0xF)) =
     hex_digit (unat (drop_bit (4 * j) b AND 0xF))"
    by simp
  then have "unat (drop_bit (4 * j) a AND 0xF) = unat (drop_bit (4 * j) b AND 0xF)"
    by (rule hex_digit_inj) (rule nibble_less)+
  then have "drop_bit (4 * j) a AND 0xF = drop_bit (4 * j) b AND 0xF"
    by (simp only: word_unat_eq_iff)
  then show ?thesis by (simp only: nibble_mask)
qed

lemma hex_inj: "hex a = hex b \<longleftrightarrow> a = b"
proof
  assume eq: "hex a = hex b"
  show "a = b"
  proof (rule bit_word_eqI)
    fix n assume "n < LENGTH(256)"
    then have j: "n div 4 < 64" by simp
    have n: "4 * (n div 4) + n mod 4 = n" by simp
    have "bit (take_bit 4 (drop_bit (4 * (n div 4)) a)) (n mod 4) =
          bit (take_bit 4 (drop_bit (4 * (n div 4)) b)) (n mod 4)"
      using hex_nibbles [OF eq j] by simp
    then show "bit a n \<longleftrightarrow> bit b n"
      by (simp add: bit_take_bit_iff bit_drop_bit_eq n)
  qed
qed simp


lemma hash_password_Some:
  "hash_password kdf e pw (Some s) =
     (hex (kdf ''sha256'' (utf8_encode pw) (utf8_encode s) 100000), s)"
  by (simp add: hash_password_def)

lemma hash_password_None:
  "hash_password kdf e pw None =
     (hex (kdf ''sha256'' (utf8_encode pw) (utf8_encode (token_hex e)) 100000), token_hex e)"
  by (simp add: hash_password_def Let_def)





section \<open>The example of the specification, evaluated\<close>

lemma valid_alice:
  "validate_username ''alice_1'' = (True, '''')"
  "validate_email ''a@b.com'' = (True, '''')"
  "validate_password ''Abcdef1!'' = (True, '''')"
  by (simp_all add: validate_username_def validate_email_def validate_password_def
      re_match_def re_search_def username_pattern_def email_pattern_def word_chars_def
      in_ranges_def)

lemma sample_hash:
  "hex (sample_kdf ''sha256'' (utf8_encode ''Abcdef1!'')
      (utf8_encode ''00112233445566778899aabbccddeeff'') 100000) = hex 8200"
  by (simp add: sample_kdf_def utf8_encode_def)

lemma sample_db_eq:
  "sample_db =
     \<lparr>users = [\<lparr>user_id = 1, username = ''alice_1'', email = ''a@b.com'',
                password_hash = hex 8200,
                password_salt = ''00112233445566778899aabbccddeeff'',
                mood = Some ''happy'', agreed_to_terms = True, created_at = 1700000000,
                last_login = None\<rparr>],
      login_attempts = [], users_seq = 1\<rparr>"
  by (simp add: sample_db_def alice_def signup_def signup_data_def register_def valid_alice
      init_db_def hash_password_None sample_env_def insert_user_def next_rowid_def sample_hash)

lemma sample_verify_ok:
  "verify_login sample_kdf sample_env (verify_data ''a@b.com'' ''Abcdef1!'') sample_db =
     (Inr \<lparr>vu_id = 1, vu_username = ''alice_1'', vu_email = ''a@b.com''\<rparr>,
      \<lparr>users = [\<lparr>user_id = 1, username = ''alice_1'', email = ''a@b.com'',
                password_hash = hex 8200,
                password_salt = ''00112233445566778899aabbccddeeff'',
                mood = Some ''happy'', agreed_to_terms = True, created_at = 1700000000,
                last_login = Some 1700000000\<rparr>],
      login_attempts = [], users_seq = 1\<rparr>)"
  by (simp add: sample_db_eq verify_login_def verify_data_def hash_password_Some sample_hash
      sample_env_def)

lemma sample_verify_wrong:
  "verify_login sample_kdf sample_env (verify_data ''a@b.com'' ''wrong'') sample_db =
     (Inl InvalidCredentials, sample_db)"
  by (simp add: sample_db_eq verify_login_def verify_data_def hash_password_Some hex_inj
      sample_kdf_def utf8_encode_def)

lemma sample_verify_unknown:
  "verify_login sample_kdf sample_env (verify_data ''x@y.org'' ''Abcdef1!'') sample_db =
     (Inl UserNotFound, sample_db)"
  by (simp add: sample_db_eq verify_login_def verify_data_def)

lemma sample_db_reachable: "reachable sample_kdf sample_db"
proof -
  have "reachable sample_kdf (handle sample_kdf sample_env (Signup alice) (init_db None))"
    by (intro reachable.intros)
  then show ?thesis by (simp add: sample_db_def)
qed

section \<open>Verification of a login\<close>

lemma find_SomeD: "find P xs = Some x \<Longrightarrow> x \<in> set xs \<and> P x"
  by (induction xs) (auto split: if_splits)

lemma find_unique:
  assumes "distinct (map f xs)" "u \<in> set xs"
  shows "find (\<lambda>x. f x = f u) xs = Some u"
  using assms by (induction xs) (auto simp: rev_image_eqI)

lemma update_by_key:
  assumes "distinct (map f xs)" "u \<in> set xs"
  shows "map (\<lambda>x. if f x = f u then g x else x) xs = map (\<lambda>x. if x = u then g x else x) xs"
proof (rule map_cong [OF refl])
  fix x assume "x \<in> set xs"
  with assms have "f x = f u \<longleftrightarrow> x = u"
    by (auto simp: distinct_map dest: inj_onD)
  then show "(if f x = f u then g x else x) = (if x = u then g x else x)" by simp
qed

lemma verify_login_complete:
  "verify_login kdf e (verify_data mail pw) st =
     (case find (\<lambda>x. email x = mail) (users st) of
        None \<Rightarrow> (Inl UserNotFound, st)
      | Some u \<Rightarrow>
          if hex (kdf ''sha256'' (utf8_encode pw) (utf8_encode (password_salt u)) 100000)
               \<noteq> password_hash u
          then (Inl InvalidCredentials, st)
          else (Inr \<lparr>vu_id = user_id u, vu_username = username u, vu_email = email u\<rparr>,
                st\<lparr>users := map (\<lambda>x. if user_id x = user_id u
                                         then x\<lparr>last_login := Some (now e)\<rparr> else x) (users st)\<rparr>))"
  by (simp add: verify_login_def verify_data_def hash_password_Some split: option.splits)

text \<open>
  C2: \<open>verify_login\<close> with an email and a password answers \<open>UserNotFound\<close> exactly
  when no stored user has that email. Otherwise, in a database whose emails and ids are
  unique (as the schema demands and as every reachable state is), with \<open>u\<close> the stored
  user of that email: it answers \<open>InvalidCredentials\<close> exactly when the hash of the given
  password under the stored salt differs from the stored hash; on a match it returns the
  id, username and email of \<open>u\<close> and sets the \<open>last_login\<close> of \<open>u\<close>, and of no other row,
  to the current time.
\<close>

theorem verify_login_outcomes:
  "(fst (verify_login kdf e (verify_data mail pw) st) = Inl UserNotFound
      \<longleftrightarrow> \<not> (\<exists>u \<in> set (users st). email u = mail))
   \<and> (distinct (map email (users st)) \<and> distinct (map user_id (users st)) \<and>
       u \<in> set (users st) \<and> email u = mail \<longrightarrow>
        (fst (verify_login kdf e (verify_data mail pw) st) = Inl InvalidCredentials
           \<longleftrightarrow> fst (hash_password kdf e pw (Some (password_salt u))) \<noteq> password_hash u)
      \<and> (fst (hash_password kdf e pw (Some (password_salt u))) = password_hash u \<longrightarrow>
           verify_login kdf e (verify_data mail pw) st =
             (Inr \<lparr>vu_id = user_id u, vu_username = username u, vu_email = email u\<rparr>,
              st\<lparr>users := map (\<lambda>x. if x = u then x\<lparr>last_login := Some (now e)\<rparr> else x)
                               (users st)\<rparr>)))"
proof (intro conjI impI)
  show "fst (verify_login kdf e (verify_data mail pw) st) = Inl UserNotFound
      \<longleftrightarrow> \<not> (\<exists>u \<in> set (users st). email u = mail)"
  proof (cases "find (\<lambda>x. email x = mail) (users st)")
    case None
    moreover from None have "\<not> (\<exists>u \<in> set (users st). email u = mail)"
      by (simp add: find_None_iff)
    ultimately show ?thesis by (simp add: verify_login_complete)
  next
    case (Some x)
    then have "\<exists>u \<in> set (users st). email u = mail" by (blast dest: find_SomeD)
    with Some show ?thesis by (simp add: verify_login_complete)
  qed
next
  assume a: "distinct (map email (users st)) \<and> distinct (map user_id (users st)) \<and>
       u \<in> set (users st) \<and> email u = mail"
  then have "find (\<lambda>x. email x = email u) (users st) = Some u"
    by (intro find_unique) simp_all
  with a have f: "find (\<lambda>x. email x = mail) (users st) = Some u" by simp
  show "fst (verify_login kdf e (verify_data mail pw) st) = Inl InvalidCredentials
           \<longleftrightarrow> fst (hash_password kdf e pw (Some (password_salt u))) \<noteq> password_hash u"
    by (simp add: verify_login_complete f hash_password_Some)
  assume h: "fst (hash_password kdf e pw (Some (password_salt u))) = password_hash u"
  have m: "map (\<lambda>x. if user_id x = user_id u then x\<lparr>last_login := Some (now e)\<rparr> else x) (users st)
         = map (\<lambda>x. if x = u then x\<lparr>last_login := Some (now e)\<rparr> else x) (users st)"
    using a by (intro update_by_key) simp_all
  from h show "verify_login kdf e (verify_data mail pw) st =
             (Inr \<lparr>vu_id = user_id u, vu_username = username u, vu_email = email u\<rparr>,
              st\<lparr>users := map (\<lambda>x. if x = u then x\<lparr>last_login := Some (now e)\<rparr> else x)
                               (users st)\<rparr>)"
    by (simp add: verify_login_complete f hash_password_Some m)
qed

theorem verify_login_outcomes_witness:
  "fst (verify_login sample_kdf sample_env (verify_data ''x@y.org'' ''Abcdef1!'') sample_db) =
     Inl UserNotFound
   \<and> fst (verify_login sample_kdf sample_env (verify_data ''a@b.com'' ''wrong'') sample_db) =
     Inl InvalidCredentials
   \<and> verify_login sample_kdf sample_env (verify_data ''a@b.com'' ''Abcdef1!'') sample_db =
     (Inr \<lparr>vu_id = 1, vu_username = ''alice_1'', vu_email = ''a@b.com''\<rparr>,
      sample_db\<lparr>users := [hd (users sample_db)\<lparr>last_login := Some 1700000000\<rparr>]\<rparr>)"
proof -
  let ?u = "hd (users sample_db)"
  have u: "distinct (map email (users sample_db)) \<and> distinct (map user_id (users sample_db)) \<and>
       ?u \<in> set (users sample_db) \<and> email ?u = ''a@b.com''"
    by (simp add: sample_db_eq)
  have h: "fst (hash_password sample_kdf sample_env ''Abcdef1!'' (Some (password_salt ?u))) =
      password_hash ?u"
    "fst (hash_password sample_kdf sample_env ''wrong'' (Some (password_salt ?u))) \<noteq>
      password_hash ?u"
    by (simp_all add: sample_db_eq hash_password_Some hex_inj sample_kdf_def utf8_encode_def)
  show ?thesis
    using verify_login_outcomes [of sample_kdf sample_env "''x@y.org''" "''Abcdef1!''" sample_db ?u]
      verify_login_outcomes [of sample_kdf sample_env "''a@b.com''" "''wrong''" sample_db ?u]
      verify_login_outcomes [of sample_kdf sample_env "''a@b.com''" "''Abcdef1!''" sample_db ?u]
      u h
    by (simp add: sample_db_eq sample_env_def)
qed

lemma verify_login_missing:
  "vreq_email data = None \<or> vreq_password data = None \<Longrightarrow>
     verify_login kdf e data st = (Inl MissingCredentials, st)"
  by (cases "vreq_email data"; cases "vreq_password data") (simp_all add: verify_login_def)

lemma verify_login_present:
  "vreq_email data = Some mail \<Longrightarrow> vreq_password data = Some pw \<Longrightarrow>
     verify_login kdf e data st = verify_login kdf e (verify_data mail pw) st"
  by (simp add: verify_login_def verify_data_def)

lemma verify_data_failure:
  "fst (verify_login kdf e (verify_data mail pw) st) = Inl err \<Longrightarrow>
     snd (verify_login kdf e (verify_data mail pw) st) = st"
  unfolding verify_login_complete by (cases "find (\<lambda>x. email x = mail) (users st)") (simp_all split: if_splits)

text \<open>
  C10: whenever \<open>verify_login\<close> answers with an error (\<open>UserNotFound\<close>,
  \<open>InvalidCredentials\<close> or a missing field), the database is left as it was; in
  particular no \<open>last_login\<close> changes.
\<close>

theorem verify_login_failure_keeps_db:
  "fst (verify_login kdf e data st) = Inl err \<Longrightarrow> snd (verify_login kdf e data st) = st"
proof (cases "vreq_email data = None \<or> vreq_password data = None")
  case True
  then show ?thesis by (simp add: verify_login_missing)
next
  case False
  then obtain mail pw where "vreq_email data = Some mail" "vreq_password data = Some pw"
    by auto
  then have "verify_login kdf e data st = verify_login kdf e (verify_data mail pw) st"
    by (rule verify_login_present)
  moreover assume "fst (verify_login kdf e data st) = Inl err"
  ultimately show ?thesis by (simp add: verify_data_failure)
qed

theorem verify_login_failure_keeps_db_witness:
  "fst (verify_login sample_kdf sample_env (verify_data ''a@b.com'' ''wrong'') sample_db) =
     Inl InvalidCredentials
   \<and> snd (verify_login sample_kdf sample_env (verify_data ''a@b.com'' ''wrong'') sample_db) =
     sample_db
   \<and> fst (verify_login sample_kdf sample_env (verify_data ''x@y.org'' ''wrong'') sample_db) =
     Inl UserNotFound
   \<and> snd (verify_login sample_kdf sample_env (verify_data ''x@y.org'' ''wrong'') sample_db) =
     sample_db"
proof -
  have a: "fst (verify_login sample_kdf sample_env (verify_data ''a@b.com'' ''wrong'') sample_db) =
     Inl InvalidCredentials"
    by (simp add: sample_verify_wrong)
  have b: "fst (verify_login sample_kdf sample_env (verify_data ''x@y.org'' ''wrong'') sample_db) =
     Inl UserNotFound"
    by (simp add: sample_db_eq verify_login_complete)
  show ?thesis
    using verify_login_failure_keeps_db [OF a] verify_login_failure_keeps_db [OF b] a b
    by simp
qed

section \<open>Registration\<close>

lemma fold_max_ge: "a \<le> fold max xs (a :: nat)"
  by (induction xs arbitrary: a) (auto intro: order_trans [OF max.cobounded2])

lemma fold_max_mem: "x \<in> set xs \<Longrightarrow> x \<le> fold max xs (a :: nat)"
proof (induction xs arbitrary: a)
  case Nil
  then show ?case by simp
next
  case (Cons y ys)
  show ?case
  proof (cases "x = y")
    case True
    have "max y a \<le> fold max ys (max y a)" by (rule fold_max_ge)
    with True show ?thesis by simp
  next
    case False
    with Cons show ?thesis by simp
  qed
qed

lemma next_rowid_fresh: "x \<in> set (users st) \<Longrightarrow> user_id x < next_rowid st"
proof -
  assume "x \<in> set (users st)"
  then have "user_id x \<in> set (map user_id (users st))" by simp
  then have "user_id x \<le> fold max (map user_id (users st)) 0" by (rule fold_max_mem)
  then show ?thesis by (simp add: next_rowid_def)
qed

lemma find_append:
  "find P (xs @ ys) = (case find P xs of None \<Rightarrow> find P ys | Some x \<Rightarrow> Some x)"
  by (induction xs) simp_all

lemma find_new_row:
  assumes "\<forall>x \<in> set xs. \<not> P x" "P y"
  shows "find P (xs @ [y]) = Some y"
proof -
  from assms(1) have "find P xs = None" by (simp add: find_None_iff)
  with assms(2) show ?thesis by (simp add: find_append)
qed

lemma find_not_None: "find P xs \<noteq> None \<longleftrightarrow> (\<exists>x \<in> set xs. P x)"
  by (auto simp: find_None_iff)

lemma register_complete:
  "register kdf e uname mail pw md agreed st =
     (if \<not> fst (validate_username uname)
      then (Inl (ValidationError (snd (validate_username uname))), st)
      else if \<not> fst (validate_email mail)
      then (Inl (ValidationError (snd (validate_email mail))), st)
      else if \<not> fst (validate_password pw)
      then (Inl (ValidationError (snd (validate_password pw))), st)
      else if agreed \<noteq> Some True then (Inl TermsNotAccepted, st)
      else if \<exists>x \<in> set (users st). username x = uname then (Inl DuplicateUsername, st)
      else if \<exists>x \<in> set (users st). email x = mail then (Inl DuplicateEmail, st)
      else (Inr (public_fields (new_user kdf e uname mail pw md st)),
            st\<lparr>users := users st @ [new_user kdf e uname mail pw md st],
               users_seq := next_rowid st\<rparr>))"
proof -
  let ?n = "new_user kdf e uname mail pw md st"
  have new: "find (\<lambda>x. user_id x = next_rowid st) (users st @ [?n]) = Some ?n"
  proof (rule find_new_row)
    show "\<forall>x \<in> set (users st). \<not> user_id x = next_rowid st"
      by (metis next_rowid_fresh less_irrefl)
    show "user_id ?n = next_rowid st" by (simp add: new_user_def)
  qed
  have ins: "insert_user (now e) uname mail
        (hex (kdf ''sha256'' (utf8_encode pw) (utf8_encode (token_hex e)) 100000))
        (token_hex e) md st =
      (if \<exists>x \<in> set (users st). username x = uname \<or> email x = mail then None
       else Some (st\<lparr>users := users st @ [?n], users_seq := next_rowid st\<rparr>, next_rowid st))"
    by (simp add: insert_user_def new_user_def Let_def)
  show ?thesis
    unfolding register_def hash_password_None
    by (simp add: split_beta find_not_None ins new del: not_None_eq)
qed

lemma signup_complete:
  "signup kdf e (signup_data uname mail pw md agreed) st =
     register kdf e uname mail pw md (Some agreed) st"
  by (simp add: signup_def signup_data_def)

lemma signup_incomplete:
  "req_username data = None \<or> req_email data = None \<or> req_password data = None \<or>
   req_mood data = None \<Longrightarrow> \<exists>f. signup kdf e data st = (Inl (MissingField f), st)"
  by (auto simp: signup_def split: option.splits)

lemma signup_register:
  "req_username data = Some uname \<Longrightarrow> req_email data = Some mail \<Longrightarrow>
   req_password data = Some pw \<Longrightarrow> req_mood data = Some md \<Longrightarrow>
     signup kdf e data st = register kdf e uname mail pw md (req_agreed_to_terms data) st"
  by (simp add: signup_def)

text \<open>
  C4: a signup request with all five fields fails with \<open>ValidationError\<close> if the check
  of the username, of the email or of the password fails (in this order); otherwise with
  \<open>TermsNotAccepted\<close> if the terms are not agreed to; otherwise with \<open>DuplicateUsername\<close>
  if a stored user has exactly this username; otherwise with \<open>DuplicateEmail\<close> if a
  stored user has exactly this email, so a request that collides on both yields
  \<open>DuplicateUsername\<close>; otherwise it succeeds.
\<close>

theorem signup_errors_in_order:
  "fst (signup kdf e (signup_data uname mail pw md agreed) st) =
     (if \<not> fst (validate_username uname)
      then Inl (ValidationError (snd (validate_username uname)))
      else if \<not> fst (validate_email mail)
      then Inl (ValidationError (snd (validate_email mail)))
      else if \<not> fst (validate_password pw)
      then Inl (ValidationError (snd (validate_password pw)))
      else if \<not> agreed then Inl TermsNotAccepted
      else if \<exists>x \<in> set (users st). username x = uname then Inl DuplicateUsername
      else if \<exists>x \<in> set (users st). email x = mail then Inl DuplicateEmail
      else Inr \<lparr>su_id = next_rowid st, su_username = uname, su_email = mail, su_mood = md,
                su_created_at = now e\<rparr>)"
  unfolding signup_complete register_complete
  by (simp add: public_fields_def new_user_def)

theorem signup_errors_in_order_witness:
  "fst (signup sample_kdf sample_env
          (signup_data ''al'' ''a@b.com'' ''Abcdef1!'' None True) sample_db) =
     Inl (ValidationError ''Username must be 3-20 characters'')
   \<and> fst (signup sample_kdf sample_env
          (signup_data ''alice_1'' ''a@b.com'' ''Abcdef1!'' None False) sample_db) =
     Inl TermsNotAccepted
   \<and> fst (signup sample_kdf sample_env
          (signup_data ''alice_1'' ''a@b.com'' ''Abcdef1!'' None True) sample_db) =
     Inl DuplicateUsername
   \<and> fst (signup sample_kdf sample_env
          (signup_data ''alice_2'' ''a@b.com'' ''Abcdef1!'' None True) sample_db) =
     Inl DuplicateEmail"
proof -
  have v: "validate_username ''al'' = (False, ''Username must be 3-20 characters'')"
    "validate_username ''alice_2'' = (True, '''')"
    by (simp_all add: validate_username_def re_match_def username_pattern_def word_chars_def
        in_ranges_def)
  show ?thesis
    using signup_errors_in_order [of sample_kdf sample_env "''al''" "''a@b.com''" "''Abcdef1!''"
        None True sample_db]
      signup_errors_in_order [of sample_kdf sample_env "''alice_1''" "''a@b.com''" "''Abcdef1!''"
        None False sample_db]
      signup_errors_in_order [of sample_kdf sample_env "''alice_1''" "''a@b.com''" "''Abcdef1!''"
        None True sample_db]
      signup_errors_in_order [of sample_kdf sample_env "''alice_2''" "''a@b.com''" "''Abcdef1!''"
        None True sample_db]
    by (simp add: v valid_alice sample_db_eq)
qed

section \<open>What a request does to the database\<close>

text \<open>A request changes nothing, adds one row with a fresh name, or sets login times.\<close>

lemma register_state:
  obtains "snd (register kdf e uname mail pw md agreed st) = st"
  | "snd (register kdf e uname mail pw md agreed st) =
      st\<lparr>users := users st @ [new_user kdf e uname mail pw md st], users_seq := next_rowid st\<rparr>"
    "\<forall>x \<in> set (users st). username x \<noteq> uname" "\<forall>x \<in> set (users st). email x \<noteq> mail"
proof (cases "snd (register kdf e uname mail pw md agreed st) = st")
  case True
  then show ?thesis by (rule that(1))
next
  case False
  then have "snd (register kdf e uname mail pw md agreed st) =
      st\<lparr>users := users st @ [new_user kdf e uname mail pw md st], users_seq := next_rowid st\<rparr>
    \<and> (\<forall>x \<in> set (users st). username x \<noteq> uname) \<and> (\<forall>x \<in> set (users st). email x \<noteq> mail)"
    unfolding register_complete by (simp split: if_splits)
  then show ?thesis using that(2) by blast
qed

lemma signup_state:
  obtains "snd (signup kdf e data st) = st"
  | uname mail pw md where
      "snd (signup kdf e data st) =
        st\<lparr>users := users st @ [new_user kdf e uname mail pw md st], users_seq := next_rowid st\<rparr>"
      "\<forall>x \<in> set (users st). username x \<noteq> uname" "\<forall>x \<in> set (users st). email x \<noteq> mail"
proof (cases "req_username data = None \<or> req_email data = None \<or> req_password data = None \<or>
   req_mood data = None")
  case True
  then obtain f where "signup kdf e data st = (Inl (MissingField f), st)"
    using signup_incomplete by blast
  then have "snd (signup kdf e data st) = st" by simp
  then show ?thesis by (rule that(1))
next
  case False
  then obtain uname mail pw md where
    "req_username data = Some uname" "req_email data = Some mail"
    "req_password data = Some pw" "req_mood data = Some md"
    by auto
  then have eq: "signup kdf e data st = register kdf e uname mail pw md (req_agreed_to_terms data) st"
    by (rule signup_register)
  show ?thesis
  proof (cases rule: register_state [of kdf e uname mail pw md "req_agreed_to_terms data" st])
    case 1
    then have "snd (signup kdf e data st) = st" by (simp add: eq)
    then show ?thesis by (rule that(1))
  next
    case 2
    from 2(1) have "snd (signup kdf e data st) =
        st\<lparr>users := users st @ [new_user kdf e uname mail pw md st], users_seq := next_rowid st\<rparr>"
      by (simp add: eq)
    then show ?thesis using 2(2,3) by (rule that(2))
  qed
qed

lemma verify_login_state:
  obtains "snd (verify_login kdf e data st) = st"
  | u :: user where "snd (verify_login kdf e data st) =
      st\<lparr>users := map (\<lambda>x. if user_id x = user_id u
                              then x\<lparr>last_login := Some (now e)\<rparr> else x) (users st)\<rparr>"
proof (cases "vreq_email data = None \<or> vreq_password data = None")
  case True
  then have "snd (verify_login kdf e data st) = st" by (simp add: verify_login_missing)
  then show ?thesis by (rule that(1))
next
  case False
  then obtain mail pw where "vreq_email data = Some mail" "vreq_password data = Some pw"
    by auto
  then have eq: "verify_login kdf e data st = verify_login kdf e (verify_data mail pw) st"
    by (rule verify_login_present)
  show ?thesis
  proof (cases "find (\<lambda>x. email x = mail) (users st)")
    case None
    then have "snd (verify_login kdf e data st) = st" by (simp add: eq verify_login_complete)
    then show ?thesis by (rule that(1))
  next
    case (Some u)
    show ?thesis
    proof (cases "hex (kdf ''sha256'' (utf8_encode pw) (utf8_encode (password_salt u)) 100000)
               \<noteq> password_hash u")
      case True
      with Some have "snd (verify_login kdf e data st) = st"
        by (simp add: eq verify_login_complete)
      then show ?thesis by (rule that(1))
    next
      case False
      with Some have "snd (verify_login kdf e data st) =
        st\<lparr>users := map (\<lambda>x. if user_id x = user_id u
                              then x\<lparr>last_login := Some (now e)\<rparr> else x) (users st)\<rparr>"
        by (simp add: eq verify_login_complete)
      then show ?thesis by (rule that(2))
    qed
  qed
qed

lemma get_users_state: "snd (get_users st) = st"
  by (simp add: get_users_def Let_def)

lemma get_stats_state: "snd (get_stats e st) = st"
  by (simp add: get_stats_def Let_def)

lemma handle_cases:
  obtains "handle kdf e r st = st"
  | uname mail pw md where
      "handle kdf e r st =
        st\<lparr>users := users st @ [new_user kdf e uname mail pw md st], users_seq := next_rowid st\<rparr>"
      "\<forall>x \<in> set (users st). username x \<noteq> uname" "\<forall>x \<in> set (users st). email x \<noteq> mail"
  | u :: user where "handle kdf e r st =
      st\<lparr>users := map (\<lambda>x. if user_id x = user_id u
                              then x\<lparr>last_login := Some (now e)\<rparr> else x) (users st)\<rparr>"
proof (cases r)
  case (Signup data)
  show ?thesis
  proof (cases rule: signup_state [of kdf e data st])
    case 1
    with Signup have "handle kdf e r st = st" by simp
    then show ?thesis by (rule that(1))
  next
    case (2 uname mail pw md)
    from 2(1) Signup have "handle kdf e r st =
        st\<lparr>users := users st @ [new_user kdf e uname mail pw md st], users_seq := next_rowid st\<rparr>"
      by simp
    then show ?thesis using 2(2,3) by (rule that(2))
  qed
next
  case Users
  then have "handle kdf e r st = st" by (simp add: get_users_state)
  then show ?thesis by (rule that(1))
next
  case (Verify data)
  show ?thesis
  proof (cases rule: verify_login_state [of kdf e data st])
    case 1
    with Verify have "handle kdf e r st = st" by simp
    then show ?thesis by (rule that(1))
  next
    case (2 u)
    with Verify have "handle kdf e r st =
      st\<lparr>users := map (\<lambda>x. if user_id x = user_id u
                              then x\<lparr>last_login := Some (now e)\<rparr> else x) (users st)\<rparr>"
      by simp
    then show ?thesis by (rule that(3))
  qed
next
  case Stats
  then have "handle kdf e r st = st" by (simp add: get_stats_state)
  then show ?thesis by (rule that(1))
qed

lemma immutable_last_login:
  "map immutable_fields (map (\<lambda>x. if c x then x\<lparr>last_login := t\<rparr> else x) xs) =
   map immutable_fields xs"
  by (induction xs) (simp_all add: immutable_fields_def)

lemma handle_users:
  "\<exists>ys. map immutable_fields (users (handle kdf e r st)) = map immutable_fields (users st) @ ys"
proof (cases rule: handle_cases [of kdf e r st])
  case 1
  then show ?thesis by simp
next
  case (2 uname mail pw md)
  then show ?thesis by simp
next
  case (3 u)
  then have "users (handle kdf e r st) =
      map (\<lambda>x. if user_id x = user_id u then x\<lparr>last_login := Some (now e)\<rparr> else x) (users st)"
    by simp
  then have "map immutable_fields (users (handle kdf e r st)) = map immutable_fields (users st) @ []"
    by (simp only: immutable_last_login append_Nil2)
  then show ?thesis by (rule exI)
qed

lemma handle_login_attempts: "login_attempts (handle kdf e r st) = login_attempts st"
proof (cases rule: handle_cases [of kdf e r st])
  case 1
  then show ?thesis by simp
next
  case (2 uname mail pw md)
  then show ?thesis by simp
next
  case (3 u)
  then show ?thesis by simp
qed

lemma reachable_login_attempts: "reachable kdf st \<Longrightarrow> login_attempts st = []"
proof (induction rule: reachable.induct)
  case start
  show ?case by (simp add: init_db_def)
next
  case (step st e r)
  then show ?case by (simp add: handle_login_attempts)
qed

text \<open>
  C8, as stated: every call of \<open>verify_login\<close> creates a login attempt. Neither the
  successful nor the failing call on the example database adds a row to
  \<open>login_attempts\<close>.
\<close>

theorem verify_login_creates_no_attempt:
  "\<not> (length (login_attempts
          (snd (verify_login sample_kdf sample_env (verify_data ''a@b.com'' ''Abcdef1!'') sample_db)))
        = Suc (length (login_attempts sample_db)))
   \<and> \<not> (length (login_attempts
          (snd (verify_login sample_kdf sample_env (verify_data ''a@b.com'' ''wrong'') sample_db)))
        = Suc (length (login_attempts sample_db)))"
  by (simp add: sample_verify_ok sample_verify_wrong)

text \<open>
  C8, amended: no call of \<open>verify_login\<close>, and no other request, writes the table
  \<open>login_attempts\<close>: it is the same after every request, so no login attempt is ever
  changed or deleted, and in every reachable state the table is empty.
\<close>

theorem login_attempts_never_written:
  "login_attempts (snd (verify_login kdf e data st)) = login_attempts st
   \<and> login_attempts (handle kdf e r st) = login_attempts st
   \<and> (reachable kdf st \<longrightarrow> login_attempts st = [])"
proof (intro conjI impI)
  show "login_attempts (snd (verify_login kdf e data st)) = login_attempts st"
    using handle_login_attempts [of kdf e "Verify data" st] by simp
  show "login_attempts (handle kdf e r st) = login_attempts st"
    by (rule handle_login_attempts)
  show "reachable kdf st \<Longrightarrow> login_attempts st = []"
    by (rule reachable_login_attempts)
qed

theorem login_attempts_never_written_witness:
  "reachable sample_kdf sample_db \<and> login_attempts sample_db = []
   \<and> login_attempts
       (snd (verify_login sample_kdf sample_env (verify_data ''a@b.com'' ''Abcdef1!'') sample_db)) = []"
  using login_attempts_never_written [of sample_kdf sample_env
      "verify_data ''a@b.com'' ''Abcdef1!''" sample_db] sample_db_reachable
  by simp

lemma map_last_login:
  "map username (map (\<lambda>x. if c x then x\<lparr>last_login := t\<rparr> else x) xs) = map username xs"
  "map email (map (\<lambda>x. if c x then x\<lparr>last_login := t\<rparr> else x) xs) = map email xs"
  "map user_id (map (\<lambda>x. if c x then x\<lparr>last_login := t\<rparr> else x) xs) = map user_id xs"
  by (induction xs) simp_all

lemma handle_unique:
  assumes "distinct (map username (users st)) \<and> distinct (map email (users st))"
  shows "distinct (map username (users (handle kdf e r st))) \<and>
         distinct (map email (users (handle kdf e r st)))"
proof (cases rule: handle_cases [of kdf e r st])
  case 1
  with assms show ?thesis by simp
next
  case (2 uname mail pw md)
  have "username (new_user kdf e uname mail pw md st) = uname"
       "email (new_user kdf e uname mail pw md st) = mail"
    by (simp_all add: new_user_def)
  with 2 assms show ?thesis by auto
next
  case (3 u)
  then have "users (handle kdf e r st) =
      map (\<lambda>x. if user_id x = user_id u then x\<lparr>last_login := Some (now e)\<rparr> else x) (users st)"
    by simp
  with assms show ?thesis by (simp only: map_last_login)
qed

lemma reachable_unique:
  "reachable kdf st \<Longrightarrow> distinct (map username (users st)) \<and> distinct (map email (users st))"
proof (induction rule: reachable.induct)
  case start
  show ?case by (simp add: init_db_def)
next
  case (step st e r)
  then show ?case by (intro handle_unique)
qed

lemma handle_ids:
  assumes "distinct (map user_id (users st))"
  shows "distinct (map user_id (users (handle kdf e r st)))"
proof (cases rule: handle_cases [of kdf e r st])
  case 1
  with assms show ?thesis by simp
next
  case (2 uname mail pw md)
  have "user_id (new_user kdf e uname mail pw md st) = next_rowid st"
    by (simp add: new_user_def)
  moreover have "next_rowid st \<notin> user_id ` set (users st)"
    by (metis next_rowid_fresh less_irrefl imageE)
  ultimately show ?thesis using 2 assms by simp
next
  case (3 u)
  then have "users (handle kdf e r st) =
      map (\<lambda>x. if user_id x = user_id u then x\<lparr>last_login := Some (now e)\<rparr> else x) (users st)"
    by simp
  with assms show ?thesis by (simp only: map_last_login)
qed

lemma reachable_ids: "reachable kdf st \<Longrightarrow> distinct (map user_id (users st))"
proof (induction rule: reachable.induct)
  case start
  show ?case by (simp add: init_db_def)
next
  case (step st e r)
  then show ?case by (intro handle_ids)
qed

text \<open>
  C9: in every reachable state no two users share a username and no two users share an
  email; and whatever the next request is, the rows present before it are still there
  afterwards, in the same order and with the same id, username, email, password hash,
  salt, mood, agreement flag and creation time (only \<open>last_login\<close> may differ), followed
  by the rows the request added.
\<close>

theorem users_unique_and_immutable:
  assumes "reachable kdf st"
  shows "distinct (map username (users st)) \<and> distinct (map email (users st)) \<and>
         (\<exists>ys. map immutable_fields (users (handle kdf e r st)) =
                map immutable_fields (users st) @ ys)"
  using reachable_unique [OF assms] handle_users [of kdf e r st] by simp

theorem users_unique_and_immutable_witness:
  "reachable sample_kdf sample_db \<and>
   distinct (map username (users sample_db)) \<and> distinct (map email (users sample_db)) \<and>
   (\<exists>ys. map immutable_fields
            (users (handle sample_kdf sample_env (Verify (verify_data ''a@b.com'' ''Abcdef1!''))
               sample_db)) =
          map immutable_fields (users sample_db) @ ys)"
  using users_unique_and_immutable [OF sample_db_reachable, of sample_env
      "Verify (verify_data ''a@b.com'' ''Abcdef1!'')"] sample_db_reachable
  by simp

section \<open>Registration followed by a login\<close>

lemma find_immutable:
  assumes "map immutable_fields xs' = map immutable_fields xs @ ys"
    and "find (\<lambda>x. email x = mail) xs = Some u"
  shows "\<exists>u'. find (\<lambda>x. email x = mail) xs' = Some u' \<and> immutable_fields u' = immutable_fields u"
  using assms
proof (induction xs arbitrary: xs')
  case Nil
  then show ?case by simp
next
  case (Cons x xs)
  from Cons.prems(1) obtain x' xs'' where xs': "xs' = x' # xs''"
    and x': "immutable_fields x' = immutable_fields x"
    and rest: "map immutable_fields xs'' = map immutable_fields xs @ ys"
    by (cases xs') auto
  from x' have mail: "email x' = email x" by (simp add: immutable_fields_def)
  show ?case
  proof (cases "email x = mail")
    case True
    with Cons.prems(2) have "u = x" by simp
    with True mail x' xs' show ?thesis by simp
  next
    case False
    with Cons.prems(2) have "find (\<lambda>x. email x = mail) xs = Some u" by simp
    with rest have "\<exists>u'. find (\<lambda>x. email x = mail) xs'' = Some u' \<and>
        immutable_fields u' = immutable_fields u"
      by (rule Cons.IH)
    with False mail xs' show ?thesis by simp
  qed
qed

lemma run_keeps_user:
  assumes "find (\<lambda>x. email x = mail) (users st) = Some u"
  shows "\<exists>u'. find (\<lambda>x. email x = mail) (users (run kdf rs st)) = Some u' \<and>
              immutable_fields u' = immutable_fields u"
  using assms
proof (induction rs arbitrary: st u)
  case Nil
  then show ?case by simp
next
  case (Cons a rs)
  obtain e r where a: "a = (e, r)" by (cases a)
  obtain ys where "map immutable_fields (users (handle kdf e r st)) =
      map immutable_fields (users st) @ ys"
    using handle_users by blast
  from this Cons.prems obtain u1 where
    u1: "find (\<lambda>x. email x = mail) (users (handle kdf e r st)) = Some u1"
    and eq: "immutable_fields u1 = immutable_fields u"
    using find_immutable by blast
  from u1 have "\<exists>u'. find (\<lambda>x. email x = mail) (users (run kdf rs (handle kdf e r st))) = Some u' \<and>
              immutable_fields u' = immutable_fields u1"
    by (rule Cons.IH)
  with eq a show ?case by simp
qed

lemma signup_success:
  assumes "fst (signup kdf e (signup_data uname mail pw md agreed) st) = Inr r"
  shows "r = public_fields (new_user kdf e uname mail pw md st)"
    and "snd (signup kdf e (signup_data uname mail pw md agreed) st) =
           st\<lparr>users := users st @ [new_user kdf e uname mail pw md st],
              users_seq := next_rowid st\<rparr>"
    and "\<forall>x \<in> set (users st). email x \<noteq> mail"
  using assms unfolding signup_complete register_complete
  by (simp_all split: if_splits)

text \<open>
  C1: after a signup that succeeded with a username, an email and a password, a later
  \<open>verify_login\<close> with the same email and password (at any time, after any further
  requests) succeeds and returns the id, username and email that the signup returned.
\<close>

theorem register_then_verify:
  assumes "fst (signup kdf e (signup_data uname mail pw md agreed) st) = Inr r"
  shows "fst (verify_login kdf e' (verify_data mail pw)
                (run kdf rs (snd (signup kdf e (signup_data uname mail pw md agreed) st)))) =
         Inr \<lparr>vu_id = su_id r, vu_username = su_username r, vu_email = su_email r\<rparr>"
proof -
  let ?n = "new_user kdf e uname mail pw md st"
  let ?st' = "snd (signup kdf e (signup_data uname mail pw md agreed) st)"
  note s = signup_success [OF assms]
  have "email ?n = mail" by (simp add: new_user_def)
  with s(3) have "find (\<lambda>x. email x = mail) (users st @ [?n]) = Some ?n"
    by (intro find_new_row) simp_all
  with s(2) have "find (\<lambda>x. email x = mail) (users ?st') = Some ?n" by simp
  then obtain u where u: "find (\<lambda>x. email x = mail) (users (run kdf rs ?st')) = Some u"
    and eq: "immutable_fields u = immutable_fields ?n"
    using run_keeps_user by blast
  from eq have fields: "user_id u = next_rowid st" "username u = uname" "email u = mail"
    "password_salt u = token_hex e"
    "password_hash u = hex (kdf ''sha256'' (utf8_encode pw) (utf8_encode (token_hex e)) 100000)"
    by (simp_all add: immutable_fields_def new_user_def)
  show ?thesis
    by (simp add: verify_login_complete u fields s(1) public_fields_def new_user_def)
qed

theorem register_then_verify_witness:
  "fst (signup sample_kdf sample_env alice (init_db None)) =
     Inr \<lparr>su_id = 1, su_username = ''alice_1'', su_email = ''a@b.com'', su_mood = Some ''happy'',
          su_created_at = 1700000000\<rparr>
   \<and> fst (verify_login sample_kdf sample_env (verify_data ''a@b.com'' ''Abcdef1!'')
          (run sample_kdf [(sample_env, Verify (verify_data ''a@b.com'' ''wrong'')), (sample_env, Stats)]
             sample_db)) =
     Inr \<lparr>vu_id = 1, vu_username = ''alice_1'', vu_email = ''a@b.com''\<rparr>"
proof -
  have a: "fst (signup sample_kdf sample_env alice (init_db None)) =
     Inr \<lparr>su_id = 1, su_username = ''alice_1'', su_email = ''a@b.com'', su_mood = Some ''happy'',
          su_created_at = 1700000000\<rparr>"
    by (simp add: alice_def signup_complete register_complete valid_alice init_db_def
        public_fields_def new_user_def next_rowid_def sample_env_def)
  show ?thesis
    using register_then_verify [of sample_kdf sample_env "''alice_1''" "''a@b.com''" "''Abcdef1!''"
        "Some ''happy''" True "init_db None" _ sample_env
        "[(sample_env, Verify (verify_data ''a@b.com'' ''wrong'')), (sample_env, Stats)]",
        unfolded alice_def [symmetric] sample_db_def [symmetric], OF a] a
    by simp
qed

section \<open>Statistics\<close>
















end
